theory Spec2Isabelle
  imports
    Main
    "HOL-Library.AList"
    "HOL-Library.Char_ord"
    "HOL-Library.List_Lexorder"
begin

section \<open>Python strings\<close>

text \<open>
  A Python \<open>str\<close> is modelled as a \<open>string\<close>, one \<open>char\<close> per code point. The character
  classes below are those of Python 3 on the ASCII range: \<open>str.isspace\<close> (which is also the
  class \<open>\s\<close> of \<open>re\<close> and the separator set of \<open>str.split()\<close> and \<open>str.strip()\<close>), the
  word characters \<open>\w\<close> of \<open>re\<close>, and the case mappings \<open>str.lower\<close> and \<open>str.upper\<close>.
  Characters outside ASCII are treated as caseless symbols that are neither white space nor
  word characters.
\<close>

definition ascii_uppercase :: string where
  "ascii_uppercase = ''ABCDEFGHIJKLMNOPQRSTUVWXYZ''"

definition ascii_lowercase :: string where
  "ascii_lowercase = ''abcdefghijklmnopqrstuvwxyz''"

definition digits :: string where
  "digits = ''0123456789''"

definition whitespace :: string where
  "whitespace = [CHR '' '', CHR 0x09, CHR 0x0A, CHR 0x0B, CHR 0x0C, CHR 0x0D,
                 CHR 0x1C, CHR 0x1D, CHR 0x1E, CHR 0x1F]"

definition isspace :: "char \<Rightarrow> bool" where
  "isspace c \<longleftrightarrow> c \<in> set whitespace"

definition is_word :: "char \<Rightarrow> bool" where
  "is_word c \<longleftrightarrow> c \<in> set (ascii_uppercase @ ascii_lowercase @ digits @ ''_'')"

definition lower_char :: "char \<Rightarrow> char" where
  "lower_char c =
     (case map_of (zip ascii_uppercase ascii_lowercase) c of Some d \<Rightarrow> d | None \<Rightarrow> c)"

definition upper_char :: "char \<Rightarrow> char" where
  "upper_char c =
     (case map_of (zip ascii_lowercase ascii_uppercase) c of Some d \<Rightarrow> d | None \<Rightarrow> c)"

definition lower :: "string \<Rightarrow> string" where
  "lower s = map lower_char s"

definition upper :: "string \<Rightarrow> string" where
  "upper s = map upper_char s"

definition lstrip :: "string \<Rightarrow> string" where
  "lstrip s = dropWhile isspace s"

definition rstrip :: "string \<Rightarrow> string" where
  "rstrip s = rev (dropWhile isspace (rev s))"

definition strip :: "string \<Rightarrow> string" where
  "strip s = rstrip (lstrip s)"

text \<open>\<open>t in s\<close> on two strings: \<open>t\<close> occurs in \<open>s\<close> as a contiguous piece.\<close>

definition substring :: "string \<Rightarrow> string \<Rightarrow> bool" where
  "substring t s \<longleftrightarrow> (\<exists>i \<in> set [0..<Suc (length s)]. take (length t) (drop i s) = t)"

section \<open>The query tokenizer\<close>

definition AND_OP :: string where "AND_OP = ''and''"
definition OR_OP :: string where "OR_OP = ''or''"
definition NOT_OP :: string where "NOT_OP = ''not''"

text \<open>
  \<open>tokenize_query\<close> scans the stripped query with
  \<^verbatim>\<open>re.findall(r'[()]|\bAND\b|\bOR\b|\bNOT\b|[^\s()]+', s, re.IGNORECASE)\<close>.
  \<open>findall\<close> below is that scan: at each position the alternatives are tried in the order
  of the pattern, the first that matches gives the next piece and the scan goes on behind
  it; where none matches (a white-space character) the scan moves one character on.
  The first argument is the character before the current position, which the word
  boundary \<open>\b\<close> looks at.
\<close>

definition is_word_at :: "char option \<Rightarrow> bool" where
  "is_word_at c = (case c of None \<Rightarrow> False | Some x \<Rightarrow> is_word x)"

definition word_boundary :: "char option \<Rightarrow> char option \<Rightarrow> bool" where
  "word_boundary before after \<longleftrightarrow> is_word_at before \<noteq> is_word_at after"

definition next_char :: "string \<Rightarrow> char option" where
  "next_char s = (case s of [] \<Rightarrow> None | c # _ \<Rightarrow> Some c)"

text \<open>\<open>\bKW\b\<close> matches at the current position, ignoring case (\<open>kw\<close> is given in upper case).\<close>

definition keyword_at :: "string \<Rightarrow> char option \<Rightarrow> string \<Rightarrow> bool" where
  "keyword_at kw prev s \<longleftrightarrow>
     word_boundary prev (next_char s) \<and>
     length kw \<le> length s \<and> upper (take (length kw) s) = kw \<and>
     word_boundary (Some (last (take (length kw) s))) (next_char (drop (length kw) s))"

text \<open>The class \<open>[^\s()]\<close>.\<close>

definition term_char :: "char \<Rightarrow> bool" where
  "term_char c \<longleftrightarrow> \<not> isspace c \<and> c \<noteq> CHR ''('' \<and> c \<noteq> CHR '')''"

function findall :: "char option \<Rightarrow> string \<Rightarrow> string list" where
  "findall prev [] = []"
| "findall prev (c # s) =
     (if c = CHR ''('' \<or> c = CHR '')'' then [c] # findall (Some c) s
      else if keyword_at ''AND'' prev (c # s)
        then take 3 (c # s) # findall (Some (last (take 3 (c # s)))) (drop 3 (c # s))
      else if keyword_at ''OR'' prev (c # s)
        then take 2 (c # s) # findall (Some (last (take 2 (c # s)))) (drop 2 (c # s))
      else if keyword_at ''NOT'' prev (c # s)
        then take 3 (c # s) # findall (Some (last (take 3 (c # s)))) (drop 3 (c # s))
      else if term_char c
        then takeWhile term_char (c # s)
               # findall (Some (last (takeWhile term_char (c # s)))) (dropWhile term_char (c # s))
      else findall (Some c) s)"
  by pat_completeness auto

text \<open>Every piece is at least one character long, so the scan ends.\<close>

lemma findall_total: "All findall_dom"
  by (relation "measure (\<lambda>(prev, s). length s)")
     (auto simp: less_Suc_eq_le length_dropWhile_le)

termination findall
  by (rule findall_total)

declare findall.simps(2) [simp del]

text \<open>
  The body of the loop over the pieces: what one piece appends to \<open>result\<close> (nothing for
  a piece that is empty after \<open>strip\<close>).
\<close>

definition classify :: "string \<Rightarrow> string list" where
  "classify t0 =
     (let t = strip t0 in
      if t = [] then []
      else if upper t = ''AND'' then [AND_OP]
      else if upper t = ''OR'' then [OR_OP]
      else if upper t = ''NOT'' then [NOT_OP]
      else if substring t ''()'' then [t]
      else [lower t])"

definition tokenize_query :: "string \<Rightarrow> string list" where
  "tokenize_query s0 =
     (let s = strip s0 in
      if s = [] then [] else concat (map classify (findall None s)))"



section \<open>The query parser\<close>

text \<open>
  The class \<open>QueryParser\<close>: the token list, the position of the next token, the inverted
  index (a dict from lemma to posting set) and the universe of document ids. Every method
  takes the parser and returns its result together with the parser it leaves behind.
\<close>

record QueryParser =
  tokens :: "string list"
  pos :: nat
  index :: "string \<rightharpoonup> int set"
  all_doc_ids :: "int set"

definition peek :: "QueryParser \<Rightarrow> string option" where
  "peek p = (if pos p \<ge> length (tokens p) then None else Some (tokens p ! pos p))"

definition consume :: "QueryParser \<Rightarrow> QueryParser" where
  "consume p = (if pos p < length (tokens p) then p\<lparr>pos := pos p + 1\<rparr> else p)"

definition term_set :: "QueryParser \<Rightarrow> string \<Rightarrow> int set" where
  "term_set p t = (case index p t of None \<Rightarrow> {} | Some s \<Rightarrow> s)"

text \<open>
  The three mutually recursive methods. Each \<open>while\<close> loop is a function of its own
  (\<open>parse_and_loop\<close>, \<open>parse_or_loop\<close>) that carries the local variable \<open>left\<close>.
\<close>

function parse_primary :: "QueryParser \<Rightarrow> int set \<times> QueryParser"
  and parse_and :: "QueryParser \<Rightarrow> int set \<times> QueryParser"
  and parse_and_loop :: "int set \<Rightarrow> QueryParser \<Rightarrow> int set \<times> QueryParser"
  and parse_or :: "QueryParser \<Rightarrow> int set \<times> QueryParser"
  and parse_or_loop :: "int set \<Rightarrow> QueryParser \<Rightarrow> int set \<times> QueryParser"
where
  "parse_primary p =
     (case peek p of
        None \<Rightarrow> ({}, p)
      | Some t \<Rightarrow>
          if t = ''('' then
            (case parse_or (consume p) of (s, p2) \<Rightarrow>
               (s, if peek p2 = Some '')'' then consume p2 else p2))
          else if t = NOT_OP then
            (case parse_primary (consume p) of (inner, p2) \<Rightarrow>
               (all_doc_ids p2 - inner, p2))
          else if t \<notin> {AND_OP, OR_OP, '')''} then
            (term_set (consume p) t, consume p)
          else ({}, p))"
| "parse_and p =
     (case parse_primary p of (left, p1) \<Rightarrow> parse_and_loop left p1)"
| "parse_and_loop left p =
     (if peek p = Some AND_OP then
        (case parse_primary (consume p) of (right, p2) \<Rightarrow>
           parse_and_loop (left \<inter> right) p2)
      else (left, p))"
| "parse_or p =
     (case parse_and p of (left, p1) \<Rightarrow> parse_or_loop left p1)"
| "parse_or_loop left p =
     (if peek p = Some OR_OP then
        (case parse_and (consume p) of (right, p2) \<Rightarrow>
           parse_or_loop (left \<union> right) p2)
      else (left, p))"
  by pat_completeness auto

text \<open>
  The recursion is nested: a loop goes on from the parser that the call before it left
  behind. Termination therefore needs to know what a call does to the parser: it keeps
  the tokens, the index and the universe, and moves the position forward only, never
  beyond the end of the tokens. This is first shown for the arguments on which the
  functions are defined.
\<close>

definition frame :: "QueryParser \<Rightarrow> QueryParser \<Rightarrow> bool" where
  "frame p q \<longleftrightarrow>
     tokens q = tokens p \<and> index q = index p \<and> all_doc_ids q = all_doc_ids p \<and>
     pos p \<le> pos q \<and> pos q \<le> max (pos p) (length (tokens p))"

lemma frame_refl: "frame p p"
  by (simp add: frame_def)

lemma frame_trans: "frame p q \<Longrightarrow> frame q r \<Longrightarrow> frame p r"
  by (auto simp: frame_def)

lemma frame_consume: "frame p (consume p)"
  by (simp add: frame_def consume_def)

lemma frame_consume_trans: "frame (consume p) q \<Longrightarrow> frame p q"
  using frame_consume frame_trans by blast

lemma peek_Some_lt: "peek p = Some t \<Longrightarrow> pos p < length (tokens p)"
  by (simp add: peek_def split: if_splits)


lemma consume_decreases:
  "peek p = Some t \<Longrightarrow>
     length (tokens (consume p)) - pos (consume p) < length (tokens p) - pos p"
  by (auto simp: peek_def consume_def split: if_splits)

lemma frame_measure:
  "frame p q \<Longrightarrow> length (tokens q) - pos q \<le> length (tokens p) - pos p"
  by (auto simp: frame_def)

lemmas parse_pinduct = parse_primary_parse_and_parse_and_loop_parse_or_parse_or_loop.pinduct

lemma parse_frame_dom:
  "parse_primary_parse_and_parse_and_loop_parse_or_parse_or_loop_dom (Inl (Inl p))
     \<Longrightarrow> frame p (snd (parse_primary p))"
  "parse_primary_parse_and_parse_and_loop_parse_or_parse_or_loop_dom (Inl (Inr p1))
     \<Longrightarrow> frame p1 (snd (parse_and p1))"
  "parse_primary_parse_and_parse_and_loop_parse_or_parse_or_loop_dom (Inr (Inl (l2, p2)))
     \<Longrightarrow> frame p2 (snd (parse_and_loop l2 p2))"
  "parse_primary_parse_and_parse_and_loop_parse_or_parse_or_loop_dom (Inr (Inr (Inl p3)))
     \<Longrightarrow> frame p3 (snd (parse_or p3))"
  "parse_primary_parse_and_parse_and_loop_parse_or_parse_or_loop_dom (Inr (Inr (Inr (l4, p4))))
     \<Longrightarrow> frame p4 (snd (parse_or_loop l4 p4))"
proof (induction p and p1 and l2 p2 and p3 and l4 p4 rule: parse_pinduct)
  case (1 p)
  show ?case
  proof (cases "peek p")
    case None
    then show ?thesis using 1(1) by (simp add: parse_primary.psimps frame_refl)
  next
    case (Some t)
    show ?thesis
    proof (cases "t = ''(''")
      case True
      obtain s q where pq: "parse_or (consume p) = (s, q)" by (cases "parse_or (consume p)")
      have "frame (consume p) q" using 1(2)[OF Some True] pq by simp
      then have "frame p q" by (rule frame_consume_trans)
      moreover have "frame q (if peek q = Some '')'' then consume q else q)"
        by (simp add: frame_consume frame_refl)
      ultimately have "frame p (if peek q = Some '')'' then consume q else q)"
        by (rule frame_trans)
      then show ?thesis using 1(1) Some True pq
        by (simp add: parse_primary.psimps)
    next
      case False
      show ?thesis
      proof (cases "t = NOT_OP")
        case True
        obtain s q where pq: "parse_primary (consume p) = (s, q)"
          by (cases "parse_primary (consume p)")
        have "frame (consume p) q" using 1(3)[OF Some False True] pq by simp
        then have "frame p q" by (rule frame_consume_trans)
        then show ?thesis using 1(1) Some False True pq
          by (simp add: parse_primary.psimps)
      next
        case F2: False
        then show ?thesis using 1(1) Some False
          by (simp add: parse_primary.psimps frame_refl frame_consume)
      qed
    qed
  qed
next
  case (2 p)
  obtain l q where pq: "parse_primary p = (l, q)" by (cases "parse_primary p")
  have "frame p q" using 2(2) pq by simp
  moreover have "frame q (snd (parse_and_loop l q))" using 2(3)[OF pq[symmetric]] .
  ultimately have "frame p (snd (parse_and_loop l q))" by (rule frame_trans)
  then show ?case using 2(1) pq
    by (simp add: parse_and.psimps)
next
  case (3 left p)
  show ?case
  proof (cases "peek p = Some AND_OP")
    case True
    obtain r q where pq: "parse_primary (consume p) = (r, q)"
      by (cases "parse_primary (consume p)")
    have "frame (consume p) q" using 3(2)[OF True] pq by simp
    then have "frame p q" by (rule frame_consume_trans)
    moreover have "frame q (snd (parse_and_loop (left \<inter> r) q))"
      using 3(3)[OF True pq[symmetric]] .
    ultimately have "frame p (snd (parse_and_loop (left \<inter> r) q))" by (rule frame_trans)
    then show ?thesis using 3(1) True pq
      by (simp add: parse_and_loop.psimps)
  next
    case False
    then show ?thesis using 3(1) by (simp add: parse_and_loop.psimps frame_refl)
  qed
next
  case (4 p)
  obtain l q where pq: "parse_and p = (l, q)" by (cases "parse_and p")
  have "frame p q" using 4(2) pq by simp
  moreover have "frame q (snd (parse_or_loop l q))" using 4(3)[OF pq[symmetric]] .
  ultimately have "frame p (snd (parse_or_loop l q))" by (rule frame_trans)
  then show ?case using 4(1) pq
    by (simp add: parse_or.psimps)
next
  case (5 left p)
  show ?case
  proof (cases "peek p = Some OR_OP")
    case True
    obtain r q where pq: "parse_and (consume p) = (r, q)"
      by (cases "parse_and (consume p)")
    have "frame (consume p) q" using 5(2)[OF True] pq by simp
    then have "frame p q" by (rule frame_consume_trans)
    moreover have "frame q (snd (parse_or_loop (left \<union> r) q))"
      using 5(3)[OF True pq[symmetric]] .
    ultimately have "frame p (snd (parse_or_loop (left \<union> r) q))" by (rule frame_trans)
    then show ?thesis using 5(1) True pq
      by (simp add: parse_or_loop.psimps)
  next
    case False
    then show ?thesis using 5(1) by (simp add: parse_or_loop.psimps frame_refl)
  qed
qed

text \<open>
  The measure of a call: the number of tokens not yet consumed, then the rank of the
  method (\<open>parse_or\<close> calls \<open>parse_and\<close> calls \<open>parse_primary\<close> at the same position, and
  each loop is entered at the position its method has reached).
\<close>

definition parse_rank ::
  "(QueryParser + QueryParser) + (int set \<times> QueryParser) + QueryParser + (int set \<times> QueryParser)
     \<Rightarrow> nat \<times> nat" where
  "parse_rank x =
     (case x of
        Inl (Inl p) \<Rightarrow> (length (tokens p) - pos p, 0)
      | Inl (Inr p) \<Rightarrow> (length (tokens p) - pos p, 2)
      | Inr (Inl (l, p)) \<Rightarrow> (length (tokens p) - pos p, 1)
      | Inr (Inr (Inl p)) \<Rightarrow> (length (tokens p) - pos p, 4)
      | Inr (Inr (Inr (l, p))) \<Rightarrow> (length (tokens p) - pos p, 3))"

lemma parse_total:
  "All parse_primary_parse_and_parse_and_loop_parse_or_parse_or_loop_dom"
proof (relation "inv_image (less_than <*lex*> less_than) parse_rank", goal_cases)
  case 1
  show ?case by (intro wf_inv_image wf_lex_prod wf_less_than)
next
  case (2 p t)
  then show ?case using consume_decreases[of p t] by (simp add: parse_rank_def)
next
  case (3 p t)
  then show ?case using consume_decreases[of p t] by (simp add: parse_rank_def)
next
  case (4 p)
  show ?case by (simp add: parse_rank_def)
next
  case (5 p x y)
  have "frame p y" using parse_frame_dom(1)[OF 5(2)] 5(1)[symmetric] by simp
  from frame_measure[OF this] show ?case
    by (auto simp: parse_rank_def)
next
  case (6 left p)
  then show ?case using consume_decreases[of p AND_OP] by (simp add: parse_rank_def)
next
  case (7 left p x y)
  have "frame (consume p) y" using parse_frame_dom(1)[OF 7(3)] 7(2)[symmetric] by simp
  from frame_measure[OF this] show ?case
    using consume_decreases[OF 7(1)] by (auto simp: parse_rank_def)
next
  case (8 p)
  show ?case by (simp add: parse_rank_def)
next
  case (9 p x y)
  have "frame p y" using parse_frame_dom(2)[OF 9(2)] 9(1)[symmetric] by simp
  from frame_measure[OF this] show ?case
    by (auto simp: parse_rank_def)
next
  case (10 left p)
  then show ?case using consume_decreases[of p OR_OP] by (simp add: parse_rank_def)
next
  case (11 left p x y)
  have "frame (consume p) y" using parse_frame_dom(2)[OF 11(3)] 11(2)[symmetric] by simp
  from frame_measure[OF this] show ?case
    using consume_decreases[OF 11(1)] by (auto simp: parse_rank_def)
qed

termination parse_primary
  by (rule parse_total)

declare parse_primary.simps [simp del] parse_and.simps [simp del]
  parse_and_loop.simps [simp del] parse_or.simps [simp del] parse_or_loop.simps [simp del]

lemmas parse_simps = parse_primary.simps parse_and.simps parse_and_loop.simps
  parse_or.simps parse_or_loop.simps

definition parse :: "QueryParser \<Rightarrow> int set \<times> QueryParser" where
  "parse p = parse_or p"

text \<open>The constructor \<open>QueryParser(tokens, index, all_doc_ids)\<close>.\<close>

definition init_parser :: "string list \<Rightarrow> (string \<rightharpoonup> int set) \<Rightarrow> int set \<Rightarrow> QueryParser" where
  "init_parser toks idx ids = \<lparr>tokens = toks, pos = 0, index = idx, all_doc_ids = ids\<rparr>"

definition boolean_search :: "string \<Rightarrow> (string \<rightharpoonup> int set) \<Rightarrow> int set \<Rightarrow> int set" where
  "boolean_search query_str idx ids =
     (let toks = tokenize_query query_str in
      if toks = [] then {} else fst (parse (init_parser toks idx ids)))"


text \<open>
  The same parser over another token list, and a token list that agrees with the
  parser's own up to and including position \<open>n\<close>, which the parser has not passed.
\<close>

definition retok :: "string list \<Rightarrow> QueryParser \<Rightarrow> QueryParser" where
  "retok ts p = p\<lparr>tokens := ts\<rparr>"

definition agree :: "nat \<Rightarrow> string list \<Rightarrow> QueryParser \<Rightarrow> bool" where
  "agree n ts p \<longleftrightarrow> pos p \<le> n \<and> take (Suc n) ts = take (Suc n) (tokens p)"


definition parser_at :: "(string \<rightharpoonup> int set) \<Rightarrow> int set \<Rightarrow> string list \<Rightarrow> nat \<Rightarrow> QueryParser" where
  "parser_at idx U toks n = \<lparr>tokens = toks, pos = n, index = idx, all_doc_ids = U\<rparr>"

section \<open>Strings of the index files\<close>

text \<open>
  \<open>str.split()\<close> without arguments: the maximal pieces between runs of white space.
\<close>

function split :: "string \<Rightarrow> string list" where
  "split s =
     (let s1 = dropWhile isspace s in
      if s1 = [] then []
      else takeWhile (\<lambda>c. \<not> isspace c) s1 # split (dropWhile (\<lambda>c. \<not> isspace c) s1))"
  by pat_completeness auto

lemma split_total: "All split_dom"
proof (relation "measure length", goal_cases)
  case 1
  show ?case by simp
next
  case (2 s s1)
  obtain c cs where s1: "s1 = c # cs" using 2(2) by (cases s1) auto
  have "dropWhile isspace s \<noteq> []" using 2 by fast
  then have "\<not> isspace (hd (dropWhile isspace s))" by (rule hd_dropWhile)
  moreover have "hd (dropWhile isspace s) = c" using 2(1) s1 by (metis list.sel(1))
  ultimately have "\<not> isspace c" by simp
  then have "length (dropWhile (\<lambda>c. \<not> isspace c) s1) \<le> length cs"
    using s1 by (simp add: length_dropWhile_le)
  moreover have "length s1 \<le> length s" using 2 by (simp add: length_dropWhile_le)
  ultimately show ?case using s1 by simp
qed

termination split
  by (rule split_total)

declare split.simps [simp del]

definition join :: "string \<Rightarrow> string list \<Rightarrow> string" where
  "join sep xs = (case xs of [] \<Rightarrow> [] | x # ys \<Rightarrow> x @ concat (map (\<lambda>y. sep @ y) ys))"

text \<open>
  The lines of a text file read with universal newlines, as \<open>for line in f\<close> yields them,
  without their line ends (every line is stripped before it is used).
\<close>

definition line_end :: "char \<Rightarrow> bool" where
  "line_end c \<longleftrightarrow> c = CHR 0x0A \<or> c = CHR 0x0D"

function file_lines :: "string \<Rightarrow> string list" where
  "file_lines s =
     (if s = [] then []
      else takeWhile (\<lambda>c. \<not> line_end c) s #
        (case dropWhile (\<lambda>c. \<not> line_end c) s of
           [] \<Rightarrow> []
         | c # r \<Rightarrow>
             if c = CHR 0x0D \<and> r \<noteq> [] \<and> hd r = CHR 0x0A then file_lines (tl r)
             else file_lines r))"
  by pat_completeness auto

lemma file_lines_total: "All file_lines_dom"
proof (relation "measure length", goal_cases)
  case 1
  show ?case by simp
next
  case (2 s c r)
  have "length (c # r) \<le> length s" using 2(2)[symmetric] by (simp add: length_dropWhile_le)
  then show ?case using 2 by (cases r) auto
next
  case (3 s c r)
  have "length (c # r) \<le> length s" using 3(2)[symmetric] by (simp add: length_dropWhile_le)
  then show ?case by auto
qed

termination file_lines
  by (rule file_lines_total)

declare file_lines.simps [simp del]

text \<open>\<open>str(n)\<close> and \<open>int(s)\<close> for decimal integers.\<close>

definition digit_char :: "nat \<Rightarrow> char" where
  "digit_char d = digits ! d"

fun digit_val :: "char \<Rightarrow> nat option" where
  "digit_val c =
     (if c \<in> set digits then Some (length (takeWhile (\<lambda>x. x \<noteq> c) digits)) else None)"

function str_nat :: "nat \<Rightarrow> string" where
  "str_nat n = (if n < 10 then [digit_char n] else str_nat (n div 10) @ [digit_char (n mod 10)])"
  by pat_completeness auto

lemma str_nat_total: "All str_nat_dom"
  by (relation "measure id") auto

termination str_nat
  by (rule str_nat_total)

declare str_nat.simps [simp del]

definition str_int :: "int \<Rightarrow> string" where
  "str_int i = (if i < 0 then CHR ''-'' # str_nat (nat (- i)) else str_nat (nat i))"

text \<open>
  The digits of an integer literal: digits, with single underscores between digits.
\<close>

fun int_digits :: "nat \<Rightarrow> string \<Rightarrow> nat option" where
  "int_digits acc [] = Some acc"
| "int_digits acc (c # cs) =
     (case digit_val c of
        Some d \<Rightarrow> int_digits (10 * acc + d) cs
      | None \<Rightarrow>
          if c = CHR ''_'' \<and> cs \<noteq> [] \<and> digit_val (hd cs) \<noteq> None then int_digits acc cs
          else None)"

definition int_literal :: "string \<Rightarrow> nat option" where
  "int_literal s = (if s \<noteq> [] \<and> digit_val (hd s) \<noteq> None then int_digits 0 s else None)"

definition py_int :: "string \<Rightarrow> int option" where
  "py_int s0 =
     (let s = strip s0 in
      case s of
        [] \<Rightarrow> None
      | c # cs \<Rightarrow>
          if c = CHR ''-'' then map_option (\<lambda>n. - int n) (int_literal cs)
          else if c = CHR ''+'' then map_option int (int_literal cs)
          else map_option int (int_literal s))"

section \<open>Building and loading the inverted index\<close>


text \<open>
  A dict from term to set of document ids, in insertion order. A file system maps the
  path of a text file to its content.
\<close>

type_synonym inverted_index = "(string \<times> int set) list"


definition INVERTED_INDEX_FILE :: string where "INVERTED_INDEX_FILE = ''inverted_index.txt''"




text \<open>
  One line of \<open>lemmas.txt\<close> or of the index file: its fields, none for a blank line.
\<close>

definition line_fields :: "string \<Rightarrow> string list" where
  "line_fields l = (let line = strip l in if line = [] then [] else split line)"
























section \<open>Properties of the tokenizer\<close>

lemma not_term_char_iff: "\<not> term_char d \<longleftrightarrow> isspace d \<or> d = CHR ''('' \<or> d = CHR '')''"
  by (auto simp: term_char_def)

lemma delim_not_word: "\<not> term_char d \<Longrightarrow> \<not> is_word d"
  by (auto simp: not_term_char_iff isspace_def whitespace_def is_word_def
      ascii_uppercase_def ascii_lowercase_def digits_def)

lemma delim_not_upper: "\<not> term_char d \<Longrightarrow> d \<notin> set ascii_uppercase"
  using delim_not_word by (auto simp: is_word_def)

lemma upper_char_other: "c \<notin> set ascii_lowercase \<Longrightarrow> upper_char c = c"
proof -
  assume "c \<notin> set ascii_lowercase"
  moreover have "length ascii_lowercase = length ascii_uppercase"
    by (simp add: ascii_lowercase_def ascii_uppercase_def)
  ultimately have "map_of (zip ascii_lowercase ascii_uppercase) c = None"
    by (simp add: map_of_zip_is_None)
  then show ?thesis by (simp add: upper_char_def)
qed

lemma lower_char_other: "c \<notin> set ascii_uppercase \<Longrightarrow> lower_char c = c"
proof -
  assume "c \<notin> set ascii_uppercase"
  moreover have "length ascii_uppercase = length ascii_lowercase"
    by (simp add: ascii_lowercase_def ascii_uppercase_def)
  ultimately have "map_of (zip ascii_uppercase ascii_lowercase) c = None"
    by (simp add: map_of_zip_is_None)
  then show ?thesis by (simp add: lower_char_def)
qed

lemma upper_char_delim: "\<not> term_char d \<Longrightarrow> upper_char d = d"
  using delim_not_word[of d] by (intro upper_char_other) (simp add: is_word_def)

lemma next_char_append: "next_char (xs @ d # b) = (if xs = [] then Some d else next_char xs)"
  by (cases xs) (simp_all add: next_char_def)

lemma is_word_at_simps [simp]:
  "is_word_at None = False" "is_word_at (Some c) = is_word c" "is_word_at (next_char []) = False"
  by (simp_all add: is_word_at_def next_char_def)

lemma keyword_at_length: "keyword_at kw prev a \<Longrightarrow> length kw \<le> length a"
  by (simp add: keyword_at_def)

lemma keyword_at_prev:
  "is_word_at prev = is_word_at prev' \<Longrightarrow> keyword_at kw prev s = keyword_at kw prev' s"
  by (simp add: keyword_at_def word_boundary_def)

lemma keyword_at_delim:
  assumes d: "\<not> term_char d" and a: "a \<noteq> []" and kw: "set kw \<subseteq> set ascii_uppercase"
  shows "keyword_at kw prev (a @ d # b) = keyword_at kw prev a"
proof (cases "length kw \<le> length a")
  case True
  have "is_word_at (next_char (drop (length kw) a @ d # b)) =
        is_word_at (next_char (drop (length kw) a))"
    using delim_not_word[OF d] by (simp add: next_char_append)
  then show ?thesis using True a
    by (simp add: keyword_at_def word_boundary_def next_char_append)
next
  case False
  then have r: "\<not> keyword_at kw prev a" by (simp add: keyword_at_def)
  have "\<not> keyword_at kw prev (a @ d # b)"
  proof
    assume k: "keyword_at kw prev (a @ d # b)"
    then have u: "upper (take (length kw) (a @ d # b)) = kw" by (simp add: keyword_at_def)
    obtain m where "length kw - length a = Suc m"
      using False by (cases "length kw - length a") auto
    then have "take (length kw) (a @ d # b) = a @ d # take m b" by simp
    then have "upper (take (length kw) (a @ d # b)) = upper a @ upper_char d # upper (take m b)"
      by (simp add: upper_def)
    then have "upper_char d \<in> set (upper (take (length kw) (a @ d # b)))" by simp
    then have "upper_char d \<in> set kw" using u by simp
    then show False using kw delim_not_upper[OF d] upper_char_delim[OF d] by auto
  qed
  then show ?thesis using r by simp
qed

lemma keyword_at_delim_first:
  assumes d: "\<not> term_char d" and kw: "set kw \<subseteq> set ascii_uppercase" and "kw \<noteq> []"
  shows "\<not> keyword_at kw prev (d # b)"
proof
  assume k: "keyword_at kw prev (d # b)"
  then have "upper (take (length kw) (d # b)) = kw" by (simp add: keyword_at_def)
  moreover obtain k ks where "kw = k # ks" using assms(3) by (cases kw) auto
  ultimately have "upper_char d \<in> set kw" by (auto simp: upper_def)
  then show False using kw delim_not_upper[OF d] upper_char_delim[OF d] by auto
qed

lemma keywords_upper:
  "set ''AND'' \<subseteq> set ascii_uppercase" "set ''OR'' \<subseteq> set ascii_uppercase"
  "set ''NOT'' \<subseteq> set ascii_uppercase"
  by (simp_all add: ascii_uppercase_def)

text \<open>One step of the scan, on a non-empty rest.\<close>

lemma findall_unfold:
  "a \<noteq> [] \<Longrightarrow> findall prev a =
     (if hd a = CHR ''('' \<or> hd a = CHR '')'' then [hd a] # findall (Some (hd a)) (tl a)
      else if keyword_at ''AND'' prev a
        then take 3 a # findall (Some (last (take 3 a))) (drop 3 a)
      else if keyword_at ''OR'' prev a
        then take 2 a # findall (Some (last (take 2 a))) (drop 2 a)
      else if keyword_at ''NOT'' prev a
        then take 3 a # findall (Some (last (take 3 a))) (drop 3 a)
      else if term_char (hd a)
        then takeWhile term_char a
               # findall (Some (last (takeWhile term_char a))) (dropWhile term_char a)
      else findall (Some (hd a)) (tl a))"
  by (cases a) (simp_all only: findall.simps list.sel list.distinct not_False_eq_True)

lemma findall_prev:
  "is_word_at prev = is_word_at prev' \<Longrightarrow> findall prev s = findall prev' s"
proof (cases s)
  case Nil
  then show ?thesis by simp
next
  case (Cons c cs)
  assume "is_word_at prev = is_word_at prev'"
  then have "keyword_at kw prev s = keyword_at kw prev' s" for kw
    by (rule keyword_at_prev)
  moreover have ne: "s \<noteq> []" using Cons by simp
  ultimately show ?thesis by (simp only: findall_unfold[OF ne])
qed

lemma isspace_not_paren: "isspace d \<Longrightarrow> d \<noteq> CHR ''('' \<and> d \<noteq> CHR '')''"
  by (auto simp: isspace_def whitespace_def)

lemma findall_delim:
  assumes "\<not> term_char d"
  shows "findall prev (d # b) =
           (if isspace d then findall None b else [d] # findall None b)"
proof -
  have k: "\<not> keyword_at ''AND'' prev (d # b)" "\<not> keyword_at ''OR'' prev (d # b)"
    "\<not> keyword_at ''NOT'' prev (d # b)"
    using keyword_at_delim_first[OF assms] keywords_upper by simp_all
  have e: "findall (Some d) b = findall None b"
    using delim_not_word[OF assms] by (intro findall_prev) simp
  show ?thesis
  proof (cases "isspace d")
    case True
    then show ?thesis using assms k e isspace_not_paren[OF True]
      by (subst findall.simps(2)) simp
  next
    case False
    then have "d = CHR ''('' \<or> d = CHR '')''" using assms by (simp add: not_term_char_iff)
    then show ?thesis using False e by (subst findall.simps(2)) auto
  qed
qed

lemma takeWhile_delim:
  "\<not> term_char d \<Longrightarrow> takeWhile term_char (a @ d # b) = takeWhile term_char a"
  by (induction a) simp_all

lemma dropWhile_delim:
  "\<not> term_char d \<Longrightarrow> dropWhile term_char (a @ d # b) = dropWhile term_char a @ d # b"
  by (induction a) simp_all

lemma findall_split:
  "\<not> term_char d \<Longrightarrow> findall prev (a @ d # b) = findall prev a @ findall None (d # b)"
proof (induction prev a rule: findall.induct)
  case (1 prev)
  show ?case using findall_delim[OF 1, of prev b] findall_delim[OF 1, of None b] by simp
next
  case (2 prev c s)
  define a where "a = c # s"
  note d = 2(7)
  note IH = 2(1-6)[folded a_def]
  have hd: "hd a = c" "tl a = s" "hd (a @ d # b) = c" "tl (a @ d # b) = s @ d # b"
    by (simp_all add: a_def)
  have ne: "a @ d # b \<noteq> []" "a \<noteq> []" by (simp_all add: a_def)
  have k: "keyword_at ''AND'' prev (a @ d # b) = keyword_at ''AND'' prev a"
    "keyword_at ''OR'' prev (a @ d # b) = keyword_at ''OR'' prev a"
    "keyword_at ''NOT'' prev (a @ d # b) = keyword_at ''NOT'' prev a"
    using keyword_at_delim[OF d ne(2), of _ prev b] keywords_upper by simp_all
  have L: "findall prev (a @ d # b) =
     (if c = CHR ''('' \<or> c = CHR '')'' then [c] # findall (Some c) (s @ d # b)
      else if keyword_at ''AND'' prev a
        then take 3 (a @ d # b) # findall (Some (last (take 3 (a @ d # b)))) (drop 3 (a @ d # b))
      else if keyword_at ''OR'' prev a
        then take 2 (a @ d # b) # findall (Some (last (take 2 (a @ d # b)))) (drop 2 (a @ d # b))
      else if keyword_at ''NOT'' prev a
        then take 3 (a @ d # b) # findall (Some (last (take 3 (a @ d # b)))) (drop 3 (a @ d # b))
      else if term_char c
        then takeWhile term_char (a @ d # b)
               # findall (Some (last (takeWhile term_char (a @ d # b)))) (dropWhile term_char (a @ d # b))
      else findall (Some c) (s @ d # b))"
    by (subst findall_unfold[OF ne(1)]) (simp only: hd k)
  have R: "findall prev a =
     (if c = CHR ''('' \<or> c = CHR '')'' then [c] # findall (Some c) s
      else if keyword_at ''AND'' prev a
        then take 3 a # findall (Some (last (take 3 a))) (drop 3 a)
      else if keyword_at ''OR'' prev a
        then take 2 a # findall (Some (last (take 2 a))) (drop 2 a)
      else if keyword_at ''NOT'' prev a
        then take 3 a # findall (Some (last (take 3 a))) (drop 3 a)
      else if term_char c
        then takeWhile term_char a
               # findall (Some (last (takeWhile term_char a))) (dropWhile term_char a)
      else findall (Some c) s)"
    by (subst findall_unfold[OF ne(2)]) (simp only: hd)
  consider (paren) "c = CHR ''('' \<or> c = CHR '')''"
    | (kand) "\<not> (c = CHR ''('' \<or> c = CHR '')'')" "keyword_at ''AND'' prev a"
    | (kor) "\<not> (c = CHR ''('' \<or> c = CHR '')'')" "\<not> keyword_at ''AND'' prev a"
        "keyword_at ''OR'' prev a"
    | (knot) "\<not> (c = CHR ''('' \<or> c = CHR '')'')" "\<not> keyword_at ''AND'' prev a"
        "\<not> keyword_at ''OR'' prev a" "keyword_at ''NOT'' prev a"
    | (run) "\<not> (c = CHR ''('' \<or> c = CHR '')'')" "\<not> keyword_at ''AND'' prev a"
        "\<not> keyword_at ''OR'' prev a" "\<not> keyword_at ''NOT'' prev a" "term_char c"
    | (space) "\<not> (c = CHR ''('' \<or> c = CHR '')'')" "\<not> keyword_at ''AND'' prev a"
        "\<not> keyword_at ''OR'' prev a" "\<not> keyword_at ''NOT'' prev a" "\<not> term_char c"
    by blast
  then have "findall prev (a @ d # b) = findall prev a @ findall None (d # b)"
  proof cases
    case paren
    have "findall prev (a @ d # b) = [c] # findall (Some c) (s @ d # b)"
      using paren by (subst L) simp
    also have "\<dots> = ([c] # findall (Some c) s) @ findall None (d # b)"
      using IH(1)[OF paren d] by simp
    also have "[c] # findall (Some c) s = findall prev a"
      using paren by (subst R) simp
    finally show ?thesis .
  next
    case kand
    have l: "3 \<le> length a" using keyword_at_length[OF kand(2)] by simp
    have "findall prev (a @ d # b) =
        take 3 a # findall (Some (last (take 3 a))) (drop 3 a @ d # b)"
      using kand l by (subst L) simp
    also have "\<dots> = (take 3 a # findall (Some (last (take 3 a))) (drop 3 a)) @ findall None (d # b)"
      using IH(2)[OF kand d] by simp
    also have "take 3 a # findall (Some (last (take 3 a))) (drop 3 a) = findall prev a"
      using kand by (subst R) simp
    finally show ?thesis .
  next
    case kor
    have l: "2 \<le> length a" using keyword_at_length[OF kor(3)] by simp
    have "findall prev (a @ d # b) =
        take 2 a # findall (Some (last (take 2 a))) (drop 2 a @ d # b)"
      using kor l by (subst L) simp
    also have "\<dots> = (take 2 a # findall (Some (last (take 2 a))) (drop 2 a)) @ findall None (d # b)"
      using IH(3)[OF kor d] by simp
    also have "take 2 a # findall (Some (last (take 2 a))) (drop 2 a) = findall prev a"
      using kor by (subst R) simp
    finally show ?thesis .
  next
    case knot
    have l: "3 \<le> length a" using keyword_at_length[OF knot(4)] by simp
    have "findall prev (a @ d # b) =
        take 3 a # findall (Some (last (take 3 a))) (drop 3 a @ d # b)"
      using knot l by (subst L) simp
    also have "\<dots> = (take 3 a # findall (Some (last (take 3 a))) (drop 3 a)) @ findall None (d # b)"
      using IH(4)[OF knot d] by simp
    also have "take 3 a # findall (Some (last (take 3 a))) (drop 3 a) = findall prev a"
      using knot by (subst R) simp
    finally show ?thesis .
  next
    case run
    have "findall prev (a @ d # b) =
        takeWhile term_char a #
          findall (Some (last (takeWhile term_char a))) (dropWhile term_char a @ d # b)"
      using run by (subst L) (simp add: takeWhile_delim[OF d] dropWhile_delim[OF d])
    also have "\<dots> = (takeWhile term_char a #
          findall (Some (last (takeWhile term_char a))) (dropWhile term_char a))
          @ findall None (d # b)"
      using IH(5)[OF run d] by simp
    also have "takeWhile term_char a #
          findall (Some (last (takeWhile term_char a))) (dropWhile term_char a) = findall prev a"
      using run by (subst R) simp
    finally show ?thesis .
  next
    case space
    have "findall prev (a @ d # b) = findall (Some c) (s @ d # b)"
      using space by (subst L) simp
    also have "\<dots> = findall (Some c) s @ findall None (d # b)"
      using IH(6)[OF space d] by simp
    also have "findall (Some c) s = findall prev a"
      using space by (subst R) simp
    finally show ?thesis .
  qed
  then show ?case by (simp add: a_def)
qed


lemma isspace_delim: "isspace d \<Longrightarrow> \<not> term_char d"
  by (simp add: term_char_def)

lemma findall_space: "isspace w \<Longrightarrow> findall prev (w # s) = findall None s"
  using findall_delim[OF isspace_delim] by simp

lemma findall_spaces: "\<forall>x\<in>set ws. isspace x \<Longrightarrow> findall prev ws = []"
  by (induction ws arbitrary: prev) (simp_all add: findall_space)

lemma findall_lstrip: "findall None (dropWhile isspace q) = findall None q"
  by (induction q) (simp_all add: findall_space)

lemma findall_trailing:
  assumes "\<forall>x\<in>set ws. isspace x"
  shows "findall prev (a @ ws) = findall prev a"
proof (cases ws)
  case Nil
  then show ?thesis by simp
next
  case (Cons w ws')
  then have "isspace w" using assms by simp
  then have "findall prev (a @ w # ws') = findall prev a @ findall None (w # ws')"
    by (intro findall_split isspace_delim)
  moreover have "findall None (w # ws') = []" using assms Cons findall_spaces by metis
  ultimately show ?thesis using Cons by simp
qed

lemma findall_rstrip: "findall prev (rstrip q) = findall prev q"
proof -
  have "rev q = takeWhile isspace (rev q) @ dropWhile isspace (rev q)" by simp
  then have "q = rev (dropWhile isspace (rev q)) @ rev (takeWhile isspace (rev q))"
    by (metis rev_append rev_rev_ident)
  then have q: "q = rstrip q @ rev (takeWhile isspace (rev q))" by (simp add: rstrip_def)
  have "\<forall>x\<in>set (rev (takeWhile isspace (rev q))). isspace x"
    by (auto dest: set_takeWhileD)
  from findall_trailing[OF this, of prev "rstrip q"] q show ?thesis by simp
qed

lemma findall_strip: "findall None (strip q) = findall None q"
  by (simp add: strip_def findall_rstrip lstrip_def findall_lstrip)

text \<open>The tokens of a query are the classified pieces of the scan of the unstripped string.\<close>

lemma tokenize_query_scan: "tokenize_query q = concat (map classify (findall None q))"
proof (cases "strip q = []")
  case True
  then have "findall None q = []" using findall_strip[of q] by simp
  then show ?thesis using True by (simp add: tokenize_query_def)
next
  case False
  then show ?thesis by (simp add: tokenize_query_def findall_strip)
qed

lemma tokenize_query_split:
  "\<not> term_char d \<Longrightarrow> tokenize_query (a @ d # b) = tokenize_query a @ tokenize_query (d # b)"
  by (simp add: tokenize_query_scan findall_split)














lemma strip_no_space:
  assumes "list_all (\<lambda>c. \<not> isspace c) s"
  shows "strip s = s"
proof -
  have "dropWhile isspace s = s" using assms by (cases s) simp_all
  moreover have "dropWhile isspace (rev s) = rev s"
    using assms by (cases "rev s") (auto simp: list_all_iff)
  ultimately show ?thesis by (simp add: strip_def lstrip_def rstrip_def)
qed




















lemma tokenize_query_delim:
  "\<not> term_char d \<Longrightarrow> tokenize_query (d # b) = tokenize_query [d] @ tokenize_query b"
  using tokenize_query_split[of d "[]" b] tokenize_query_split[of d "[d]" "[]"]
  by (simp add: tokenize_query_scan findall_delim)

lemma tokenize_run_context:
  assumes "\<not> term_char d1" and "\<not> term_char d2"
  shows "tokenize_query (a @ d1 # r @ d2 # b) =
           tokenize_query (a @ [d1]) @ tokenize_query r @ tokenize_query (d2 # b)"
proof -
  have "tokenize_query (a @ d1 # r @ d2 # b) = tokenize_query a @ tokenize_query (d1 # r @ d2 # b)"
    by (rule tokenize_query_split[OF assms(1)])
  also have "tokenize_query (d1 # r @ d2 # b) = tokenize_query [d1] @ tokenize_query (r @ d2 # b)"
    by (rule tokenize_query_delim[OF assms(1)])
  also have "tokenize_query (r @ d2 # b) = tokenize_query r @ tokenize_query (d2 # b)"
    by (rule tokenize_query_split[OF assms(2)])
  finally have "tokenize_query (a @ d1 # r @ d2 # b) =
      (tokenize_query a @ tokenize_query [d1]) @ tokenize_query r @ tokenize_query (d2 # b)"
    by simp
  moreover have "tokenize_query a @ tokenize_query [d1] = tokenize_query (a @ [d1])"
    using tokenize_query_split[OF assms(1), of a "[]"] by simp
  ultimately show ?thesis by simp
qed


section \<open>Properties of the parser\<close>

lemma parse_frame:
  "frame p (snd (parse_primary p))"
  "frame p (snd (parse_and p))"
  "frame p (snd (parse_and_loop l p))"
  "frame p (snd (parse_or p))"
  "frame p (snd (parse_or_loop l p))"
  using parse_total by (simp_all add: parse_frame_dom)

lemma parse_primary_term:
  assumes "peek p = Some t" and "t \<notin> {''('', NOT_OP, AND_OP, OR_OP, '')''}"
  shows "parse_primary p = (case index p t of None \<Rightarrow> {} | Some S \<Rightarrow> S, consume p)"
  using assms by (simp add: parse_primary.simps term_set_def consume_def)

lemma parse_and_loop_stop: "peek p \<noteq> Some AND_OP \<Longrightarrow> parse_and_loop l p = (l, p)"
  by (simp add: parse_and_loop.simps)

lemma parse_or_loop_stop: "peek p \<noteq> Some OR_OP \<Longrightarrow> parse_or_loop l p = (l, p)"
  by (simp add: parse_or_loop.simps)

lemma peek_init_single: "peek (init_parser [t] idx U) = Some t"
  by (simp add: peek_def init_parser_def)

lemma peek_consume_init_single: "peek (consume (init_parser [t] idx U)) = None"
  by (simp add: peek_def consume_def init_parser_def)










lemmas parse_induct = parse_primary_parse_and_parse_and_loop_parse_or_parse_or_loop.induct




lemma parse_primary_unmatched:
  "peek p \<in> {None, Some AND_OP, Some OR_OP, Some '')''} \<Longrightarrow> parse_primary p = ({}, p)"
  by (auto simp: parse_primary.simps AND_OP_def OR_OP_def NOT_OP_def)


lemma agree_lengths:
  assumes "agree n ts p"
  shows "pos p < length ts \<longleftrightarrow> pos p < length (tokens p)"
proof -
  have "length (take (Suc n) ts) = length (take (Suc n) (tokens p))"
    using assms by (simp add: agree_def)
  then show ?thesis using assms by (auto simp: agree_def min_def split: if_splits)
qed

lemma agree_nth:
  assumes "agree n ts p"
  shows "ts ! pos p = tokens p ! pos p"
proof -
  have l: "pos p < Suc n" and e: "take (Suc n) ts = take (Suc n) (tokens p)"
    using assms by (simp_all add: agree_def)
  have "ts ! pos p = take (Suc n) ts ! pos p" using l by (simp only: nth_take)
  also have "\<dots> = take (Suc n) (tokens p) ! pos p" by (simp only: e)
  also have "\<dots> = tokens p ! pos p" using l by (simp only: nth_take)
  finally show ?thesis .
qed

lemma agree_peek: "agree n ts p \<Longrightarrow> peek (retok ts p) = peek p"
  using agree_lengths[of n ts p] agree_nth[of n ts p]
  by (auto simp: peek_def retok_def)

lemma agree_consume: "agree n ts p \<Longrightarrow> consume (retok ts p) = retok ts (consume p)"
  using agree_lengths[of n ts p] by (auto simp: consume_def retok_def)

lemma agree_frame: "agree n ts p \<Longrightarrow> frame p q \<Longrightarrow> pos q \<le> n \<Longrightarrow> agree n ts q"
  by (simp add: agree_def frame_def)

lemma agree_back: "agree n ts q \<Longrightarrow> frame p q \<Longrightarrow> agree n ts p"
  by (simp add: agree_def frame_def)

lemma retok_fields [simp]:
  "index (retok ts p) = index p" "all_doc_ids (retok ts p) = all_doc_ids p"
  "pos (retok ts p) = pos p" "tokens (retok ts p) = ts"
  by (simp_all add: retok_def)

lemma term_set_retok [simp]: "term_set (retok ts p) t = term_set p t"
  by (simp add: term_set_def)

lemma parse_local:
  "\<forall>ts n. agree n ts (snd (parse_primary p)) \<longrightarrow>
     parse_primary (retok ts p) = (fst (parse_primary p), retok ts (snd (parse_primary p)))"
  "\<forall>ts n. agree n ts (snd (parse_and p1)) \<longrightarrow>
     parse_and (retok ts p1) = (fst (parse_and p1), retok ts (snd (parse_and p1)))"
  "\<forall>ts n. agree n ts (snd (parse_and_loop l2 p2)) \<longrightarrow>
     parse_and_loop l2 (retok ts p2) =
       (fst (parse_and_loop l2 p2), retok ts (snd (parse_and_loop l2 p2)))"
  "\<forall>ts n. agree n ts (snd (parse_or p3)) \<longrightarrow>
     parse_or (retok ts p3) = (fst (parse_or p3), retok ts (snd (parse_or p3)))"
  "\<forall>ts n. agree n ts (snd (parse_or_loop l4 p4)) \<longrightarrow>
     parse_or_loop l4 (retok ts p4) =
       (fst (parse_or_loop l4 p4), retok ts (snd (parse_or_loop l4 p4)))"
proof (induction p and p1 and l2 p2 and p3 and l4 p4 rule: parse_induct)
  case (1 p)
  show ?case
  proof (intro allI impI)
    fix ts n assume a: "agree n ts (snd (parse_primary p))"
    have ap: "agree n ts p" using a parse_frame(1)[of p] by (rule agree_back)
    note pk = agree_peek[OF ap] and cs = agree_consume[OF ap]
    show "parse_primary (retok ts p) = (fst (parse_primary p), retok ts (snd (parse_primary p)))"
    proof (cases "peek p")
      case None
      then show ?thesis using pk by (simp add: parse_primary.simps)
    next
      case (Some t)
      show ?thesis
      proof (cases "t = ''(''")
        case True
        obtain s q where pq: "parse_or (consume p) = (s, q)" by (cases "parse_or (consume p)")
        let ?q = "if peek q = Some '')'' then consume q else q"
        have res: "parse_primary p = (s, ?q)" using Some True pq by (simp add: parse_primary.simps)
        have "frame q ?q" by (simp add: frame_consume frame_refl)
        then have aq: "agree n ts q" using a res agree_back by simp
        then have "parse_or (retok ts (consume p)) = (s, retok ts q)"
          using 1(1)[OF Some True] pq by auto
        then show ?thesis using Some True pk cs res agree_peek[OF aq] agree_consume[OF aq]
          by (simp add: parse_primary.simps[of "retok ts p"])
      next
        case False
        show ?thesis
        proof (cases "t = NOT_OP")
          case True
          obtain s q where pq: "parse_primary (consume p) = (s, q)"
            by (cases "parse_primary (consume p)")
          have res: "parse_primary p = (all_doc_ids q - s, q)"
            using Some False True pq by (simp add: parse_primary.simps)
          then have aq: "agree n ts q" using a by simp
          then have "parse_primary (retok ts (consume p)) = (s, retok ts q)"
            using 1(2)[OF Some False True] pq by auto
          then show ?thesis using Some False True pk cs res
            by (simp add: parse_primary.simps[of "retok ts p"])
        next
          case F2: False
          show ?thesis using Some False F2 pk cs
            by (simp add: parse_primary.simps)
        qed
      qed
    qed
  qed
next
  case (2 p)
  show ?case
  proof (intro allI impI)
    fix ts n assume a: "agree n ts (snd (parse_and p))"
    obtain l q where pq: "parse_primary p = (l, q)" by (cases "parse_primary p")
    have res: "parse_and p = parse_and_loop l q" using pq by (simp add: parse_and.simps)
    have "agree n ts q" using a res parse_frame(3)[of q l] agree_back by simp
    then have 1: "parse_primary (retok ts p) = (l, retok ts q)" using 2(1) pq by auto
    have "parse_and_loop l (retok ts q) = (fst (parse_and_loop l q), retok ts (snd (parse_and_loop l q)))"
      using 2(2)[OF pq[symmetric]] a res by auto
    then show "parse_and (retok ts p) = (fst (parse_and p), retok ts (snd (parse_and p)))"
      using 1 res by (simp add: parse_and.simps[of "retok ts p"])
  qed
next
  case (3 left p)
  show ?case
  proof (intro allI impI)
    fix ts n assume a: "agree n ts (snd (parse_and_loop left p))"
    have ap: "agree n ts p" using a parse_frame(3)[of p left] by (rule agree_back)
    note pk = agree_peek[OF ap] and cs = agree_consume[OF ap]
    show "parse_and_loop left (retok ts p) =
       (fst (parse_and_loop left p), retok ts (snd (parse_and_loop left p)))"
    proof (cases "peek p = Some AND_OP")
      case True
      obtain r q where pq: "parse_primary (consume p) = (r, q)"
        by (cases "parse_primary (consume p)")
      have res: "parse_and_loop left p = parse_and_loop (left \<inter> r) q"
        using True pq by (simp add: parse_and_loop.simps[of left p])
      have "agree n ts q" using a res parse_frame(3)[of q "left \<inter> r"] agree_back by simp
      then have 1: "parse_primary (retok ts (consume p)) = (r, retok ts q)"
        using 3(1)[OF True] pq by auto
      have "parse_and_loop (left \<inter> r) (retok ts q) =
          (fst (parse_and_loop (left \<inter> r) q), retok ts (snd (parse_and_loop (left \<inter> r) q)))"
        using 3(2)[OF True pq[symmetric]] a res by auto
      then show ?thesis using True pk cs 1 res
        by (simp add: parse_and_loop.simps[of left "retok ts p"])
    next
      case False
      then show ?thesis using pk by (simp add: parse_and_loop.simps)
    qed
  qed
next
  case (4 p)
  show ?case
  proof (intro allI impI)
    fix ts n assume a: "agree n ts (snd (parse_or p))"
    obtain l q where pq: "parse_and p = (l, q)" by (cases "parse_and p")
    have res: "parse_or p = parse_or_loop l q" using pq by (simp add: parse_or.simps)
    have "agree n ts q" using a res parse_frame(5)[of q l] agree_back by simp
    then have 1: "parse_and (retok ts p) = (l, retok ts q)" using 4(1) pq by auto
    have "parse_or_loop l (retok ts q) = (fst (parse_or_loop l q), retok ts (snd (parse_or_loop l q)))"
      using 4(2)[OF pq[symmetric]] a res by auto
    then show "parse_or (retok ts p) = (fst (parse_or p), retok ts (snd (parse_or p)))"
      using 1 res by (simp add: parse_or.simps[of "retok ts p"])
  qed
next
  case (5 left p)
  show ?case
  proof (intro allI impI)
    fix ts n assume a: "agree n ts (snd (parse_or_loop left p))"
    have ap: "agree n ts p" using a parse_frame(5)[of p left] by (rule agree_back)
    note pk = agree_peek[OF ap] and cs = agree_consume[OF ap]
    show "parse_or_loop left (retok ts p) =
       (fst (parse_or_loop left p), retok ts (snd (parse_or_loop left p)))"
    proof (cases "peek p = Some OR_OP")
      case True
      obtain r q where pq: "parse_and (consume p) = (r, q)"
        by (cases "parse_and (consume p)")
      have res: "parse_or_loop left p = parse_or_loop (left \<union> r) q"
        using True pq by (simp add: parse_or_loop.simps[of left p])
      have "agree n ts q" using a res parse_frame(5)[of q "left \<union> r"] agree_back by simp
      then have 1: "parse_and (retok ts (consume p)) = (r, retok ts q)"
        using 5(1)[OF True] pq by auto
      have "parse_or_loop (left \<union> r) (retok ts q) =
          (fst (parse_or_loop (left \<union> r) q), retok ts (snd (parse_or_loop (left \<union> r) q)))"
        using 5(2)[OF True pq[symmetric]] a res by auto
      then show ?thesis using True pk cs 1 res
        by (simp add: parse_or_loop.simps[of left "retok ts p"])
    next
      case False
      then show ?thesis using pk by (simp add: parse_or_loop.simps)
    qed
  qed
qed

lemma parse_prefix:
  assumes "take (Suc (pos (snd (parse (init_parser ts idx U))))) ts' =
           take (Suc (pos (snd (parse (init_parser ts idx U))))) ts"
  shows "fst (parse (init_parser ts' idx U)) = fst (parse (init_parser ts idx U))"
proof -
  let ?p = "init_parser ts idx U"
  have "tokens (snd (parse_or ?p)) = ts" using parse_frame(4)[of ?p]
    by (simp add: frame_def init_parser_def)
  then have "agree (pos (snd (parse_or ?p))) ts' (snd (parse_or ?p))"
    using assms by (simp add: agree_def parse_def)
  then have "parse_or (retok ts' ?p) = (fst (parse_or ?p), retok ts' (snd (parse_or ?p)))"
    using parse_local(4) by blast
  moreover have "retok ts' ?p = init_parser ts' idx U" by (simp add: retok_def init_parser_def)
  ultimately show ?thesis by (simp add: parse_def)
qed

lemma parse_first_term:
  assumes a: "a \<notin> {''('', NOT_OP, AND_OP, OR_OP, '')''}" and b: "b \<notin> {AND_OP, OR_OP}"
  shows "fst (parse (init_parser (a # b # rest) idx U)) = (case idx a of None \<Rightarrow> {} | Some S \<Rightarrow> S)"
proof -
  let ?p = "init_parser (a # b # rest) idx U"
  have pk: "peek ?p = Some a" by (simp add: peek_def init_parser_def)
  have 1: "parse_primary ?p = (case idx a of None \<Rightarrow> {} | Some S \<Rightarrow> S, consume ?p)"
    using parse_primary_term[OF pk a] by (simp add: init_parser_def)
  have "peek (consume ?p) = Some b" by (simp add: peek_def consume_def init_parser_def)
  then have "peek (consume ?p) \<noteq> Some AND_OP" "peek (consume ?p) \<noteq> Some OR_OP"
    using b by auto
  then show ?thesis
    by (simp add: parse_def parse_or.simps parse_and.simps 1 parse_and_loop_stop parse_or_loop_stop)
qed

lemma parse_stray_close: "fst (parse (init_parser ('')'' # rest) idx U)) = {}"
proof -
  let ?p = "init_parser ('')'' # rest) idx U"
  have pk: "peek ?p = Some '')''" by (simp add: peek_def init_parser_def)
  then have 1: "parse_primary ?p = ({}, ?p)" by (intro parse_primary_unmatched) simp
  have "peek ?p \<noteq> Some AND_OP" "peek ?p \<noteq> Some OR_OP"
    using pk by (simp_all add: AND_OP_def OR_OP_def)
  then show ?thesis
    by (simp add: parse_def parse_or.simps parse_and.simps 1 parse_and_loop_stop parse_or_loop_stop)
qed




lemma parser_at_fields [simp]:
  "index (parser_at idx U toks n) = idx" "all_doc_ids (parser_at idx U toks n) = U"
  by (simp_all add: parser_at_def)


lemma peek_not_or:
  "rest = [] \<or> hd rest \<noteq> OR_OP \<Longrightarrow> peek (parser_at idx U (pre @ rest) (length pre)) \<noteq> Some OR_OP"
  by (cases rest) (auto simp: peek_def parser_at_def)














lemma boolean_search_tokens:
  "tokenize_query q \<noteq> [] \<Longrightarrow>
     boolean_search q idx U = fst (parse (init_parser (tokenize_query q) idx U))"
  by (simp add: boolean_search_def)




section \<open>Properties of the index files\<close>




subsection \<open>Splitting and joining\<close>

lemma split_Nil [simp]: "split [] = []"
  by (subst split.simps) simp

lemma split_leading: "isspace c \<Longrightarrow> split (c # s) = split s"
  by (subst split.simps, subst (2) split.simps) simp

lemma split_word_sep:
  assumes "w \<noteq> []" and "\<forall>c\<in>set w. \<not> isspace c" and "isspace d"
  shows "split (w @ d # rest) = w # split rest"
proof -
  have h: "\<not> isspace (hd w)" using assms(1,2) by (cases w) simp_all
  have 1: "dropWhile isspace (w @ d # rest) = w @ d # rest"
    using assms(1) h by (cases w) simp_all
  have 2: "takeWhile (\<lambda>c. \<not> isspace c) (w @ d # rest) = w"
    using assms(2,3) by (simp add: takeWhile_append2)
  have 3: "dropWhile (\<lambda>c. \<not> isspace c) (w @ d # rest) = d # rest"
    using assms(2,3) by (simp add: dropWhile_append2)
  show ?thesis
    using assms(1) by (subst split.simps) (simp add: 1 2 3 split_leading[OF assms(3)])
qed

lemma split_word:
  assumes "w \<noteq> []" and "\<forall>c\<in>set w. \<not> isspace c"
  shows "split w = [w]"
proof -
  have h: "\<not> isspace (hd w)" using assms by (cases w) simp_all
  have 1: "dropWhile isspace w = w" using assms(1) h by (cases w) simp_all
  have 2: "takeWhile (\<lambda>c. \<not> isspace c) w = w" "dropWhile (\<lambda>c. \<not> isspace c) w = []"
    using assms(2) by simp_all
  show ?thesis using assms(1) by (subst split.simps) (simp add: 1 2)
qed

lemma join_Cons2: "join sep (x # y # ys) = x @ sep @ join sep (y # ys)"
  by (simp add: join_def)

lemma join_single [simp]: "join sep [x] = x"
  by (simp add: join_def)

lemma space_isspace: "isspace CHR '' ''"
  by (simp add: isspace_def whitespace_def)

lemma split_join:
  assumes "\<forall>w\<in>set ws. w \<noteq> [] \<and> (\<forall>c\<in>set w. \<not> isspace c)"
  shows "split (join '' '' ws) = ws"
  using assms
proof (induction ws rule: induct_list012)
  case 1
  show ?case by (simp add: join_def)
next
  case (2 w)
  then show ?case by (simp add: split_word)
next
  case (3 w w' ws)
  have "split (w @ CHR '' '' # join '' '' (w' # ws)) = w # split (join '' '' (w' # ws))"
    using 3(3) by (intro split_word_sep space_isspace) simp_all
  then show ?case using 3 by (simp add: join_Cons2)
qed

lemma split_words:
  "w \<in> set (split s) \<Longrightarrow> w \<noteq> [] \<and> (\<forall>c\<in>set w. \<not> isspace c)"
proof (induction s rule: split.induct)
  case (1 s)
  define s1 where "s1 = dropWhile isspace s"
  show ?case
  proof (cases "s1 = []")
    case True
    then have "split s = []" by (subst split.simps) (simp add: s1_def)
    then show ?thesis using 1(2) by simp
  next
    case False
    then have sp: "split s = takeWhile (\<lambda>c. \<not> isspace c) s1 #
        split (dropWhile (\<lambda>c. \<not> isspace c) s1)"
      by (subst split.simps) (simp add: s1_def Let_def)
    have "\<not> isspace (hd s1)" using False unfolding s1_def by (rule hd_dropWhile)
    then have ne: "takeWhile (\<lambda>c. \<not> isspace c) s1 \<noteq> []" using False by (cases s1) simp_all
    have tw: "\<not> isspace c" if "c \<in> set (takeWhile (\<lambda>c. \<not> isspace c) s1)" for c
      using set_takeWhileD[OF that] by simp
    have "w = takeWhile (\<lambda>c. \<not> isspace c) s1 \<or>
        w \<in> set (split (dropWhile (\<lambda>c. \<not> isspace c) s1))"
      using 1(2) unfolding sp by simp
    then show ?thesis
    proof
      assume e: "w = takeWhile (\<lambda>c. \<not> isspace c) s1"
      show ?thesis unfolding e
      proof (intro conjI ballI)
        show "takeWhile (\<lambda>c. \<not> isspace c) s1 \<noteq> []" by (rule ne)
      next
        fix c assume "c \<in> set (takeWhile (\<lambda>c. \<not> isspace c) s1)"
        then show "\<not> isspace c" by (rule tw)
      qed
    next
      assume "w \<in> set (split (dropWhile (\<lambda>c. \<not> isspace c) s1))"
      then show ?thesis by (rule 1(1)[OF s1_def False])
    qed
  qed
qed

lemma strip_ends:
  assumes "s \<noteq> []" and "\<not> isspace (hd s)" and "\<not> isspace (last s)"
  shows "strip s = s"
proof -
  have 1: "dropWhile isspace s = s" using assms(1,2) by (cases s) simp_all
  obtain x xs where r: "rev s = x # xs" using assms(1) by (cases "rev s") auto
  then have "x = last s" using assms(1) by (metis hd_rev list.sel(1))
  then have "dropWhile isspace (x # xs) = x # xs" using assms(3) by simp
  then have "dropWhile isspace (rev s) = rev s" by (simp only: r)
  then show ?thesis by (simp add: strip_def lstrip_def rstrip_def 1)
qed

lemma join_nonempty:
  assumes "ws \<noteq> []" and "\<forall>w\<in>set ws. w \<noteq> []"
  shows "join sep ws \<noteq> []" and "hd (join sep ws) = hd (hd ws)"
    and "last (join sep ws) = last (last ws)"
proof -
  obtain w ws' where ws: "ws = w # ws'" using assms(1) by (cases ws) auto
  then have w: "w \<noteq> []" using assms(2) by simp
  show "join sep ws \<noteq> []" using ws w by (simp add: join_def)
  show "hd (join sep ws) = hd (hd ws)" using ws w by (simp add: join_def)
  show "last (join sep ws) = last (last ws)"
    using assms(2) unfolding ws
  proof (induction ws' arbitrary: w rule: rev_induct)
    case Nil
    then show ?case by simp
  next
    case (snoc x xs)
    then show ?case by (simp add: join_def)
  qed
qed

lemma line_fields_join:
  assumes "ws \<noteq> []" and "\<forall>w\<in>set ws. w \<noteq> [] \<and> (\<forall>c\<in>set w. \<not> isspace c)"
  shows "line_fields (join '' '' ws) = ws"
proof -
  have ne: "\<forall>w\<in>set ws. w \<noteq> []" using assms(2) by blast
  note j = join_nonempty[OF assms(1) ne, of "'' ''"]
  have "hd ws \<in> set ws" "last ws \<in> set ws" using assms(1) by simp_all
  then have "\<not> isspace (hd (hd ws))" "\<not> isspace (last (last ws))"
    using assms(2) by (metis hd_in_set, metis last_in_set)
  then have "strip (join '' '' ws) = join '' '' ws"
    using j by (intro strip_ends) simp_all
  then show ?thesis using j(1) split_join[OF assms(2)] by (simp add: line_fields_def)
qed

subsection \<open>Lines of a file\<close>

lemma file_lines_Nil [simp]: "file_lines [] = []"
  by (subst file_lines.simps) simp

lemma file_lines_line:
  assumes "\<forall>c\<in>set l. \<not> line_end c"
  shows "file_lines (l @ CHR 0x0A # rest) = l # file_lines rest"
proof -
  have 1: "takeWhile (\<lambda>c. \<not> line_end c) (l @ CHR 0x0A # rest) = l"
    using assms by (simp add: takeWhile_append2 line_end_def)
  have 2: "dropWhile (\<lambda>c. \<not> line_end c) (l @ CHR 0x0A # rest) = CHR 0x0A # rest"
    using assms by (simp add: dropWhile_append2 line_end_def)
  show ?thesis by (subst file_lines.simps) (simp add: 1 2)
qed

lemma file_lines_concat:
  assumes "\<forall>l\<in>set ls. \<forall>c\<in>set l. \<not> line_end c"
  shows "file_lines (concat (map (\<lambda>l. l @ [CHR 0x0A]) ls)) = ls"
  using assms by (induction ls) (simp_all add: file_lines_line)

subsection \<open>Decimal integers\<close>

lemma digit_val_digit_char: "d < 10 \<Longrightarrow> digit_val (digit_char d) = Some d"
proof -
  assume "d < 10"
  then consider "d = 0" | "d = 1" | "d = 2" | "d = 3" | "d = 4" | "d = 5" | "d = 6"
    | "d = 7" | "d = 8" | "d = 9"
    by atomize_elim presburger
  then show ?thesis by cases (simp_all add: digit_char_def digits_def)
qed

lemma digit_char_digit: "d < 10 \<Longrightarrow> digit_char d \<in> set digits"
proof -
  assume "d < 10"
  moreover have "length digits = 10" by (simp add: digits_def)
  ultimately show ?thesis unfolding digit_char_def by (intro nth_mem) simp
qed

lemma digit_val_Some_iff: "digit_val c \<noteq> None \<longleftrightarrow> c \<in> set digits"
  by simp

lemma str_nat_digits: "c \<in> set (str_nat n) \<Longrightarrow> c \<in> set digits"
proof (induction n rule: str_nat.induct)
  case (1 n)
  show ?case
  proof (cases "n < 10")
    case True
    then show ?thesis using 1(2) digit_char_digit[of n] by (subst (asm) str_nat.simps) simp
  next
    case False
    have "n mod 10 < 10" by simp
    then show ?thesis using 1(1)[OF False] 1(2) False digit_char_digit[of "n mod 10"]
      by (subst (asm) str_nat.simps) auto
  qed
qed

lemma str_nat_nonempty: "str_nat n \<noteq> []"
  by (subst str_nat.simps) simp

lemma int_digits_snoc:
  assumes "\<forall>x\<in>set xs. x \<in> set digits" and "digit_val c = Some d"
  shows "int_digits acc (xs @ [c]) = map_option (\<lambda>a. 10 * a + d) (int_digits acc xs)"
  using assms(1)
proof (induction xs arbitrary: acc)
  case Nil
  show ?case using assms(2) by simp
next
  case (Cons x xs)
  then obtain dx where dx: "digit_val x = Some dx" by (cases "digit_val x") auto
  have "int_digits acc ((x # xs) @ [c]) = int_digits (10 * acc + dx) (xs @ [c])"
    using dx by (simp del: digit_val.simps)
  also have "\<dots> = map_option (\<lambda>a. 10 * a + d) (int_digits (10 * acc + dx) xs)"
    using Cons by simp
  also have "int_digits (10 * acc + dx) xs = int_digits acc (x # xs)"
    using dx by (simp del: digit_val.simps)
  finally show ?case .
qed

lemma int_digits_str_nat: "int_digits 0 (str_nat n) = Some n"
proof (induction n rule: str_nat.induct)
  case (1 n)
  show ?case
  proof (cases "n < 10")
    case True
    then show ?thesis
      using digit_val_digit_char[OF True]
      by (subst str_nat.simps) (simp del: digit_val.simps)
  next
    case False
    have d: "digit_val (digit_char (n mod 10)) = Some (n mod 10)"
      by (rule digit_val_digit_char) simp
    have "int_digits 0 (str_nat (n div 10) @ [digit_char (n mod 10)]) =
        map_option (\<lambda>a. 10 * a + n mod 10) (int_digits 0 (str_nat (n div 10)))"
      using str_nat_digits by (intro int_digits_snoc d) blast
    then show ?thesis using 1[OF False] False by (subst str_nat.simps) simp
  qed
qed

lemma int_literal_str_nat: "int_literal (str_nat n) = Some n"
proof -
  have "hd (str_nat n) \<in> set (str_nat n)" using str_nat_nonempty by simp
  then have "hd (str_nat n) \<in> set digits" by (rule str_nat_digits)
  then show ?thesis
    using str_nat_nonempty[of n] int_digits_str_nat[of n]
    by (simp add: int_literal_def del: digit_val.simps) simp
qed

lemma digits_not_space: "c \<in> set digits \<Longrightarrow> \<not> isspace c"
  by (auto simp: digits_def isspace_def whitespace_def)

lemma str_int_chars: "c \<in> set (str_int i) \<Longrightarrow> c \<in> set digits \<or> c = CHR ''-''"
  using str_nat_digits by (auto simp: str_int_def split: if_splits)

lemma str_int_nonempty: "str_int i \<noteq> []"
  by (simp add: str_int_def str_nat_nonempty)

lemma str_int_no_space: "c \<in> set (str_int i) \<Longrightarrow> \<not> isspace c"
  using str_int_chars[of c i] digits_not_space[of c]
  by (auto simp: isspace_def whitespace_def)

lemma strip_no_space_set:
  assumes "\<forall>c\<in>set s. \<not> isspace c"
  shows "strip s = s"
  using assms by (intro strip_no_space) (simp add: list_all_iff)

lemma py_int_str_int: "py_int (str_int i) = Some i"
proof -
  have s: "strip (str_int i) = str_int i"
    using str_int_no_space by (intro strip_no_space_set) blast
  show ?thesis
  proof (cases "i < 0")
    case True
    then show ?thesis
      using int_literal_str_nat[of "nat (- i)"]
      by (simp add: py_int_def s) (simp add: str_int_def)
  next
    case False
    obtain c cs where c: "str_nat (nat i) = c # cs"
      using str_nat_nonempty[of "nat i"] by (cases "str_nat (nat i)") auto
    then have "c \<in> set digits" using str_nat_digits[of c "nat i"] by simp
    then have "c \<noteq> CHR ''-''" "c \<noteq> CHR ''+''" by (auto simp: digits_def)
    then show ?thesis
      using False c int_literal_str_nat[of "nat i"]
      by (simp add: py_int_def s) (simp add: str_int_def)
  qed
qed

subsection \<open>Lower case\<close>

lemma lower_char_range: "lower_char c \<noteq> c \<Longrightarrow> lower_char c \<in> set ascii_lowercase"
proof -
  assume a: "lower_char c \<noteq> c"
  then obtain d where d: "map_of (zip ascii_uppercase ascii_lowercase) c = Some d"
    by (cases "map_of (zip ascii_uppercase ascii_lowercase) c") (auto simp: lower_char_def)
  then have "d \<in> set ascii_lowercase" by (meson in_set_zipE map_of_SomeD)
  then show ?thesis using d by (simp add: lower_char_def)
qed

lemma lowercase_not_upper: "c \<in> set ascii_lowercase \<Longrightarrow> c \<notin> set ascii_uppercase"
  by (auto simp: ascii_lowercase_def ascii_uppercase_def)

lemma lowercase_not_space: "c \<in> set ascii_lowercase \<Longrightarrow> \<not> isspace c"
  by (auto simp: ascii_lowercase_def isspace_def whitespace_def)

lemma lower_char_idem: "lower_char (lower_char c) = lower_char c"
  using lower_char_range[of c] lowercase_not_upper lower_char_other by (cases "lower_char c = c") auto

lemma lower_idem: "lower (lower s) = lower s"
  by (simp add: lower_def lower_char_idem)

lemma lower_char_space: "\<not> isspace c \<Longrightarrow> \<not> isspace (lower_char c)"
  using lower_char_range[of c] lowercase_not_space by (cases "lower_char c = c") auto

lemma lower_word:
  assumes "w \<noteq> [] \<and> (\<forall>c\<in>set w. \<not> isspace c)"
  shows "lower w \<noteq> [] \<and> (\<forall>c\<in>set (lower w). \<not> isspace c)"
  using assms lower_char_space by (auto simp: lower_def)

subsection \<open>The dict that the build fills\<close>
























section \<open>The claims\<close>

subsection \<open>C7: a term evaluates to its posting set\<close>

text \<open>
  Claim C7. Evaluating a TERM token (a token that is neither a parenthesis nor one of the
  operators) returns the posting set that the index holds for that lemma, and the empty
  set when the index has no entry for it. A query that consists of one term is answered
  the same way: an unindexed lemma gives the empty result, not an error.
\<close>

theorem term_posting_set:
  "t \<notin> {''('', NOT_OP, AND_OP, OR_OP, '')''} \<longrightarrow>
     (peek p = Some t \<longrightarrow>
        fst (parse_primary p) = (case index p t of None \<Rightarrow> {} | Some S \<Rightarrow> S)) \<and>
     (tokenize_query q = [t] \<longrightarrow>
        boolean_search q idx U = (case idx t of None \<Rightarrow> {} | Some S \<Rightarrow> S))"
proof (intro impI conjI)
  assume t: "t \<notin> {''('', NOT_OP, AND_OP, OR_OP, '')''}"
  {
    assume "peek p = Some t"
    then show "fst (parse_primary p) = (case index p t of None \<Rightarrow> {} | Some S \<Rightarrow> S)"
      using t by (simp add: parse_primary_term)
  }
  {
    assume q: "tokenize_query q = [t]"
    let ?p = "init_parser [t] idx U"
    have 1: "parse_primary ?p = (case idx t of None \<Rightarrow> {} | Some S \<Rightarrow> S, consume ?p)"
      using parse_primary_term[OF peek_init_single t, of idx U] by (simp add: init_parser_def)
    have "parse_or ?p = (case idx t of None \<Rightarrow> {} | Some S \<Rightarrow> S, consume ?p)"
      by (simp add: parse_or.simps parse_and.simps 1 parse_and_loop_stop parse_or_loop_stop
          peek_consume_init_single)
    then show "boolean_search q idx U = (case idx t of None \<Rightarrow> {} | Some S \<Rightarrow> S)"
      using q by (simp add: boolean_search_def parse_def)
  }
qed

theorem term_posting_set_witness:
  "''cat'' \<notin> {''('', NOT_OP, AND_OP, OR_OP, '')''} \<and>
   peek (init_parser [''cat''] [''cat'' \<mapsto> {1, 2}] {1, 2, 3}) = Some ''cat'' \<and>
   fst (parse_primary (init_parser [''cat''] [''cat'' \<mapsto> {1, 2}] {1, 2, 3})) = {1, 2} \<and>
   tokenize_query ''Cat'' = [''cat''] \<and>
   boolean_search ''Cat'' [''cat'' \<mapsto> {1, 2}] {1, 2, 3} = {1, 2} \<and>
   ''elephant'' \<notin> {''('', NOT_OP, AND_OP, OR_OP, '')''} \<and>
   tokenize_query ''elephant'' = [''elephant''] \<and>
   boolean_search ''elephant'' [''cat'' \<mapsto> {1, 2}] {1, 2, 3} = {}"
proof -
  have c: "tokenize_query ''Cat'' = [''cat'']" by code_simp
  have e: "tokenize_query ''elephant'' = [''elephant'']" by code_simp
  show ?thesis
    using term_posting_set[of "''cat''" "init_parser [''cat''] [''cat'' \<mapsto> {1, 2}] {1, 2, 3}"
        "''Cat''" "[''cat'' \<mapsto> {1, 2}]" "{1, 2, 3}"]
      term_posting_set[of "''elephant''" "init_parser [] Map.empty {}" "''elephant''"
        "[''cat'' \<mapsto> {1, 2}]" "{1, 2, 3}"]
    by (simp add: c e NOT_OP_def AND_OP_def OR_OP_def peek_init_single)
      (simp add: init_parser_def)
qed

subsection \<open>C10: the search terminates\<close>



subsection \<open>C6: malformed queries are tolerated\<close>



subsection \<open>C9: tokens behind the first expression are ignored\<close>

text \<open>
  Claim C9. A search returns the value of the first top-level \<open>orExpr\<close> and ignores the
  tokens that remain behind it: the value depends only on the tokens up to the one under
  the final position, so any two token lists that agree that far evaluate to the same
  set. In particular a query whose tokens start with a term followed by a token other
  than AND and OR (two adjacent terms, say) returns the posting set of that first term,
  and a query whose first token is a closing parenthesis returns the empty set.
\<close>

theorem remaining_tokens_ignored:
  "(tokenize_query q \<noteq> [] \<longrightarrow>
      boolean_search q idx U = fst (parse_or (init_parser (tokenize_query q) idx U))) \<and>
   (take (Suc (pos (snd (parse (init_parser ts idx U))))) ts' =
      take (Suc (pos (snd (parse (init_parser ts idx U))))) ts \<longrightarrow>
      fst (parse (init_parser ts' idx U)) = fst (parse (init_parser ts idx U))) \<and>
   (tokenize_query q = a # b # rest \<and> a \<notin> {''('', NOT_OP, AND_OP, OR_OP, '')''} \<and>
      b \<notin> {AND_OP, OR_OP} \<longrightarrow>
      boolean_search q idx U = (case idx a of None \<Rightarrow> {} | Some S \<Rightarrow> S)) \<and>
   (tokenize_query q = '')'' # rest \<longrightarrow> boolean_search q idx U = {})"
proof (intro conjI impI)
  assume "tokenize_query q \<noteq> []"
  then show "boolean_search q idx U = fst (parse_or (init_parser (tokenize_query q) idx U))"
    by (simp add: boolean_search_def parse_def)
next
  assume "take (Suc (pos (snd (parse (init_parser ts idx U))))) ts' =
      take (Suc (pos (snd (parse (init_parser ts idx U))))) ts"
  then show "fst (parse (init_parser ts' idx U)) = fst (parse (init_parser ts idx U))"
    by (rule parse_prefix)
next
  assume "tokenize_query q = a # b # rest \<and> a \<notin> {''('', NOT_OP, AND_OP, OR_OP, '')''} \<and>
      b \<notin> {AND_OP, OR_OP}"
  then show "boolean_search q idx U = (case idx a of None \<Rightarrow> {} | Some S \<Rightarrow> S)"
    using parse_first_term[of a b rest idx U] by (simp add: boolean_search_def)
next
  assume "tokenize_query q = '')'' # rest"
  then show "boolean_search q idx U = {}"
    using parse_stray_close[of rest idx U] by (simp add: boolean_search_def)
qed

theorem remaining_tokens_ignored_witness:
  "tokenize_query ''cat dog'' = [''cat'', ''dog''] \<and>
   ''cat'' \<notin> {''('', NOT_OP, AND_OP, OR_OP, '')''} \<and> ''dog'' \<notin> {AND_OP, OR_OP} \<and>
   boolean_search ''cat dog'' [''cat'' \<mapsto> {1, 2}, ''dog'' \<mapsto> {2, 3}] {1, 2, 3} = {1, 2} \<and>
   pos (snd (parse (init_parser [''cat'', ''dog''] [''cat'' \<mapsto> {1, 2}, ''dog'' \<mapsto> {2, 3}] {1, 2, 3}))) = 1 \<and>
   fst (parse (init_parser [''cat'', ''dog'', ''and'', ''('']
        [''cat'' \<mapsto> {1, 2}, ''dog'' \<mapsto> {2, 3}] {1, 2, 3})) = {1, 2} \<and>
   tokenize_query '') cat'' = ['')'', ''cat''] \<and>
   boolean_search '') cat'' [''cat'' \<mapsto> {1, 2}, ''dog'' \<mapsto> {2, 3}] {1, 2, 3} = {}"
proof -
  let ?I = "[''cat'' \<mapsto> {1, 2}, ''dog'' \<mapsto> {2, 3}] :: string \<rightharpoonup> int set"
  have t1: "tokenize_query ''cat dog'' = [''cat'', ''dog'']" by code_simp
  have t2: "tokenize_query '') cat'' = ['')'', ''cat'']" by code_simp
  have p: "parse (init_parser [''cat'', ''dog''] ?I {1, 2, 3}) =
      ({1, 2}, init_parser [''cat'', ''dog''] ?I {1, 2, 3}\<lparr>pos := 1\<rparr>)"
    by (simp add: parse_def init_parser_def parse_simps peek_def consume_def term_set_def
        AND_OP_def OR_OP_def NOT_OP_def)
  note r1 = remaining_tokens_ignored[of "''cat dog''" ?I "{1, 2, 3}" "[''cat'', ''dog'']"
        "[''cat'', ''dog'', ''and'', ''('']" "''cat''" "''dog''" "[]"]
  note r2 = remaining_tokens_ignored[of "'') cat''" ?I "{1, 2, 3}" "[]" "[]" "''cat''" "''dog''"
        "[''cat'']"]
  have a: "fst (parse (init_parser [''cat'', ''dog'', ''and'', ''(''] ?I {1, 2, 3})) = {1, 2}"
    using r1[THEN conjunct2, THEN conjunct1] by (simp add: p)
  have b: "boolean_search ''cat dog'' ?I {1, 2, 3} = {1, 2}"
    using r1[THEN conjunct2, THEN conjunct2, THEN conjunct1]
    by (simp add: t1 AND_OP_def OR_OP_def NOT_OP_def)
  have c: "boolean_search '') cat'' ?I {1, 2, 3} = {}"
    using r2[THEN conjunct2, THEN conjunct2, THEN conjunct2] by (simp add: t2)
  show ?thesis
    by (simp add: t1 t2 p a b c AND_OP_def OR_OP_def NOT_OP_def)
qed

subsection \<open>C1: set algebra of the operators\<close>




subsection \<open>C2: operators and terms of the tokenizer\<close>




subsection \<open>C3: a field that is no integer\<close>




subsection \<open>C5: the format of the persisted index\<close>



end
